theory Spec2Isabelle
  imports Complex_Main "HOL-Library.Stream"
begin

section \<open>Discretised Brownian paths: \<^verbatim>\<open>src/sde/sde.py\<close>\<close>

text \<open>
  The function under study:
  \<^verbatim>\<open>
  def brown(T, N, N_ens=1):
      dt = T / N
      sqrt_dt = np.sqrt(dt)

      dW = random.normal(0., sqrt_dt, (N_ens, N))
      W = np.zeros((N_ens, N + 1))
      W[:, 1:] = np.cumsum(dW, axis=1)

      return W, dW
  \<close>
  Numbers: \<open>T\<close> is a Python float, \<open>N\<close> and \<open>N_ens\<close> are Python ints (unbounded, possibly
  negative). A double is modelled as a real number, the negative zero or NaN. The two
  zeros are kept apart because NumPy's sampler tests the sign bit of its scale. Rounding,
  underflow and overflow are not modelled: every sum, product, quotient and root below is
  the exact one, and the infinities do not occur.
\<close>

subsection \<open>Values and errors\<close>

datatype error = ZeroDivisionError | ValueError

text \<open>\<open>Fin 0\<close> is the positive zero \<^verbatim>\<open>0.0\<close>, \<open>NegZero\<close> is \<^verbatim>\<open>-0.0\<close>.\<close>

datatype double = Fin real | NegZero | NaN

text \<open>A sum that is zero is \<^verbatim>\<open>0.0\<close>, unless both summands are \<^verbatim>\<open>-0.0\<close>.\<close>

fun fadd :: "double \<Rightarrow> double \<Rightarrow> double" where
  "fadd (Fin a) (Fin b) = Fin (a + b)"
| "fadd (Fin a) NegZero = Fin a"
| "fadd NegZero (Fin b) = Fin b"
| "fadd NegZero NegZero = NegZero"
| "fadd _ _ = NaN"

text \<open>A product that is zero has the sign of its factors multiplied.\<close>

fun fmul :: "double \<Rightarrow> double \<Rightarrow> double" where
  "fmul (Fin a) (Fin b) = (if a * b = 0 \<and> (a < 0 \<or> b < 0) then NegZero else Fin (a * b))"
| "fmul (Fin a) NegZero = (if a < 0 then Fin 0 else NegZero)"
| "fmul NegZero (Fin b) = (if b < 0 then Fin 0 else NegZero)"
| "fmul NegZero NegZero = Fin 0"
| "fmul _ _ = NaN"

text \<open>
  The comparison \<^verbatim>\<open>==\<close> of two doubles: the two zeros are equal, NaN is equal to nothing,
  itself included.
\<close>

fun feq :: "double \<Rightarrow> double \<Rightarrow> bool" where
  "feq (Fin a) (Fin b) = (a = b)"
| "feq (Fin a) NegZero = (a = 0)"
| "feq NegZero (Fin b) = (b = 0)"
| "feq NegZero NegZero = True"
| "feq _ _ = False"


text \<open>
  \<^verbatim>\<open>T / N\<close> on a Python float and a Python int raises when the divisor is zero; a zero
  quotient has the sign of \<open>T\<close> times the sign of \<open>N\<close>.
\<close>

fun float_div_int :: "double \<Rightarrow> int \<Rightarrow> double" where
  "float_div_int (Fin t) n = (if t = 0 \<and> n < 0 then NegZero else Fin (t / real_of_int n))"
| "float_div_int NegZero n = (if n < 0 then Fin 0 else NegZero)"
| "float_div_int NaN n = NaN"

definition py_truediv :: "double \<Rightarrow> int \<Rightarrow> error + double" where
  "py_truediv x n = (if n = 0 then Inl ZeroDivisionError else Inr (float_div_int x n))"

text \<open>
  \<^verbatim>\<open>np.sqrt\<close> of a negative number is NaN (with a warning), not an exception, and
  \<^verbatim>\<open>np.sqrt(-0.0)\<close> is \<^verbatim>\<open>-0.0\<close>.
\<close>

fun np_sqrt :: "double \<Rightarrow> double" where
  "np_sqrt (Fin x) = (if x < 0 then NaN else Fin (sqrt x))"
| "np_sqrt NegZero = NegZero"
| "np_sqrt NaN = NaN"

subsection \<open>Two-dimensional arrays\<close>

text \<open>
  An array carries its shape beside its rows, since an array of shape \<open>(0, n)\<close> has no row
  to read the number of columns from.
\<close>

record ndarray =
  shape :: "nat \<times> nat"
  data :: "double list list"

definition wf_ndarray :: "ndarray \<Rightarrow> bool" where
  "wf_ndarray a =
     (length (data a) = fst (shape a) \<and> list_all (\<lambda>r. length r = snd (shape a)) (data a))"

text \<open>Reading entry \<open>[k, j]\<close>.\<close>

definition entry :: "ndarray \<Rightarrow> nat \<Rightarrow> nat \<Rightarrow> double" where
  "entry a k j = data a ! k ! j"

text \<open>\<^verbatim>\<open>np.zeros((r, c))\<close>: a negative dimension is a \<^verbatim>\<open>ValueError\<close>.\<close>

definition np_zeros :: "int \<times> int \<Rightarrow> error + ndarray" where
  "np_zeros sz =
     (case sz of (r, c) \<Rightarrow>
        if r < 0 \<or> c < 0 then Inl ValueError
        else Inr \<lparr>shape = (nat r, nat c), data = replicate (nat r) (replicate (nat c) (Fin 0))\<rparr>)"

text \<open>
  \<^verbatim>\<open>np.cumsum(a, axis=1)\<close>: along each row the first entry is copied and every later
  entry is the previous output plus the next input.
\<close>

fun cumsum_from :: "double \<Rightarrow> double list \<Rightarrow> double list" where
  "cumsum_from acc [] = []"
| "cumsum_from acc (x # xs) = fadd acc x # cumsum_from (fadd acc x) xs"

fun cumsum_row :: "double list \<Rightarrow> double list" where
  "cumsum_row [] = []"
| "cumsum_row (x # xs) = x # cumsum_from x xs"

definition np_cumsum_axis1 :: "ndarray \<Rightarrow> ndarray" where
  "np_cumsum_axis1 a = \<lparr>shape = shape a, data = map cumsum_row (data a)\<rparr>"

text \<open>
  \<^verbatim>\<open>W[:, 1:] = v\<close>: the slice has shape \<open>(r, c - 1)\<close> for \<open>W\<close> of shape \<open>(r, c)\<close>;
  an axis of \<open>v\<close> of length one is broadcast along the slice, any other mismatch is a
  \<^verbatim>\<open>ValueError\<close>. Column 0 of \<open>W\<close> is kept.
\<close>

definition broadcast_row :: "nat \<Rightarrow> double list \<Rightarrow> double list" where
  "broadcast_row c xs = (if length xs = c then xs else replicate c (hd xs))"

definition setitem_cols_from1 :: "ndarray \<Rightarrow> ndarray \<Rightarrow> error + ndarray" where
  "setitem_cols_from1 W v =
     (case shape W of (r, c) \<Rightarrow>
      case shape v of (vr, vc) \<Rightarrow>
        if (vr = r \<or> vr = 1) \<and> (vc = c - 1 \<or> vc = 1) then
          let rows = (if vr = r then data v else replicate r (hd (data v)))
          in Inr \<lparr>shape = (r, c),
                  data = map2 (\<lambda>w x. take 1 w @ broadcast_row (c - 1) x) (data W) rows\<rparr>
        else Inl ValueError)"

subsection \<open>The random source\<close>

text \<open>
  The state of the process-wide generator is the stream of standard normal variates it
  will hand out next; seeding (outside \<^verbatim>\<open>brown\<close>) chooses that stream. A sampler takes
  the arguments of \<^verbatim>\<open>random.normal(loc, scale, size)\<close> and the state, and returns the
  array or the exception, and the state it leaves behind.
\<close>

type_synonym rng = "real stream"

type_synonym sampler = "double \<Rightarrow> double \<Rightarrow> int \<times> int \<Rightarrow> rng \<Rightarrow> (error + ndarray) \<times> rng"

fun fill_rows :: "nat \<Rightarrow> nat \<Rightarrow> (real \<Rightarrow> double) \<Rightarrow> rng \<Rightarrow> double list list" where
  "fill_rows 0 c f g = []"
| "fill_rows (Suc r) c f g = map f (stake c g) # fill_rows r c f (sdrop c g)"

text \<open>
  The sampler's test of its scale, \<^verbatim>\<open>not isnan(scale) and signbit(scale)\<close>: it holds of
  the negative numbers and of \<^verbatim>\<open>-0.0\<close>.
\<close>

fun scale_negative :: "double \<Rightarrow> bool" where
  "scale_negative (Fin s) = (s < 0)"
| "scale_negative NegZero = True"
| "scale_negative NaN = False"

text \<open>
  NumPy's \<^verbatim>\<open>random.normal\<close>: a scale with the sign bit set (NaN apart) and a negative
  dimension are each a \<^verbatim>\<open>ValueError\<close>, raised before anything is drawn; otherwise the
  array is filled in row-major order, each entry being \<open>loc + scale * z\<close> for the next
  variate \<open>z\<close>.
\<close>

definition random_normal :: sampler where
  "random_normal loc scale sz g =
     (case sz of (r, c) \<Rightarrow>
        if scale_negative scale then (Inl ValueError, g)
        else if r < 0 \<or> c < 0 then (Inl ValueError, g)
        else (Inr \<lparr>shape = (nat r, nat c),
                    data = fill_rows (nat r) (nat c) (\<lambda>z. fadd loc (fmul scale (Fin z))) g\<rparr>,
              sdrop (nat r * nat c) g))"


subsection \<open>The path generator\<close>

text \<open>
  The body of \<^verbatim>\<open>brown\<close>, with the module attribute \<^verbatim>\<open>random.normal\<close> it looks up at
  call time as a parameter. The result is the returned pair \<open>(W, dW)\<close> or the exception,
  together with the generator state after the call.
\<close>

definition brown_with ::
  "sampler \<Rightarrow> double \<Rightarrow> int \<Rightarrow> int \<Rightarrow> rng \<Rightarrow> (error + ndarray \<times> ndarray) \<times> rng" where
  "brown_with normal T N N_ens g =
     (case py_truediv T N of
        Inl e \<Rightarrow> (Inl e, g)
      | Inr dt \<Rightarrow>
          let sqrt_dt = np_sqrt dt in
          (case normal (Fin 0) sqrt_dt (N_ens, N) g of
             (Inl e, g') \<Rightarrow> (Inl e, g')
           | (Inr dW, g') \<Rightarrow>
               (case np_zeros (N_ens, N + 1) of
                  Inl e \<Rightarrow> (Inl e, g')
                | Inr W0 \<Rightarrow>
                    (case setitem_cols_from1 W0 (np_cumsum_axis1 dW) of
                       Inl e \<Rightarrow> (Inl e, g')
                     | Inr W \<Rightarrow> (Inr (W, dW), g')))))"

text \<open>
  \<^verbatim>\<open>brown\<close> as the module has it, on NumPy's sampler, at a horizon \<open>T\<close> that is a number
  other than \<^verbatim>\<open>-0.0\<close> (so \<open>brown 0\<close> is the call at \<^verbatim>\<open>0.0\<close>). The call at \<^verbatim>\<open>-0.0\<close> is
  \<open>brown_with random_normal NegZero\<close>.
\<close>

definition brown :: "real \<Rightarrow> int \<Rightarrow> int \<Rightarrow> rng \<Rightarrow> (error + ndarray \<times> ndarray) \<times> rng" where
  "brown T N N_ens g = brown_with random_normal (Fin T) N N_ens g"

text \<open>A call that leaves out \<^verbatim>\<open>N_ens\<close> binds the default of the signature, \<^verbatim>\<open>N_ens=1\<close>.\<close>

definition brown_default :: "real \<Rightarrow> int \<Rightarrow> rng \<Rightarrow> (error + ndarray \<times> ndarray) \<times> rng" where
  "brown_default T N g = brown T N 1 g"

text \<open>
  The rows that \<^verbatim>\<open>random.normal(0., sqrt_dt, (N_ens, N))\<close> fills from the state \<open>g\<close>,
  for \<open>N \<noteq> 0\<close> and non-negative dimensions.
\<close>

definition increments :: "real \<Rightarrow> int \<Rightarrow> int \<Rightarrow> rng \<Rightarrow> double list list" where
  "increments T N N_ens g =
     fill_rows (nat N_ens) (nat N)
       (\<lambda>z. fadd (Fin 0) (fmul (np_sqrt (float_div_int (Fin T) N)) (Fin z))) g"



section \<open>Properties\<close>

subsection \<open>The sampler, the cumulative sum and the slice assignment\<close>

lemma length_fill_rows: "length (fill_rows r c f g) = r"
  by (induction r arbitrary: g) simp_all

lemma fill_rows_nth:
  "k < r \<Longrightarrow> fill_rows r c f g ! k = map f (stake c (sdrop (k * c) g))"
proof (induction r arbitrary: g k)
  case 0
  then show ?case by simp
next
  case (Suc r)
  show ?case
  proof (cases k)
    case 0
    then show ?thesis by simp
  next
    case (Suc k')
    with Suc.prems have "k' < r" by simp
    from Suc.IH [OF this, of "sdrop c g"] Suc show ?thesis
      by (simp add: add.commute)
  qed
qed

lemma fill_rows_row_length:
  "row \<in> set (fill_rows r c f g) \<Longrightarrow> length row = c"
  by (induction r arbitrary: g) auto

lemma fill_rows_entry:
  "k < r \<Longrightarrow> j < c \<Longrightarrow> fill_rows r c f g ! k ! j = f (g !! (k * c + j))"
  by (simp add: fill_rows_nth sdrop_snth)

lemma length_cumsum_from: "length (cumsum_from acc xs) = length xs"
  by (induction xs arbitrary: acc) simp_all

lemma length_cumsum_row: "length (cumsum_row xs) = length xs"
  by (cases xs) (simp_all add: length_cumsum_from)

lemma cumsum_from_step:
  "Suc j < length xs \<Longrightarrow>
     cumsum_from acc xs ! Suc j = fadd (cumsum_from acc xs ! j) (xs ! Suc j)"
proof (induction xs arbitrary: acc j)
  case Nil
  then show ?case by simp
next
  case (Cons x xs)
  show ?case
  proof (cases j)
    case 0
    with Cons.prems show ?thesis by (cases xs) simp_all
  next
    case (Suc j')
    with Cons.prems have "Suc j' < length xs" by simp
    from Cons.IH [OF this] Suc show ?thesis by simp
  qed
qed

lemma cumsum_row_0: "xs \<noteq> [] \<Longrightarrow> cumsum_row xs ! 0 = xs ! 0"
  by (cases xs) simp_all

lemma cumsum_row_step:
  assumes "Suc j < length xs"
  shows "cumsum_row xs ! Suc j = fadd (cumsum_row xs ! j) (xs ! Suc j)"
proof -
  from assms obtain x ys where xs: "xs = x # ys" by (cases xs) auto
  show ?thesis
  proof (cases j)
    case 0
    with assms xs show ?thesis by (cases ys) simp_all
  next
    case (Suc j')
    with assms xs have "Suc j' < length ys" by simp
    from cumsum_from_step [OF this, of x] Suc xs show ?thesis by simp
  qed
qed

lemma map2_replicate_left:
  "length xs = n \<Longrightarrow> map2 f (replicate n a) xs = map (f a) xs"
  by (induction xs arbitrary: n) auto


lemma setitem_zeros_same_shape:
  assumes "length D = r" and "\<forall>row \<in> set D. length row = c"
  shows "setitem_cols_from1
           \<lparr>shape = (r, Suc c), data = replicate r (replicate (Suc c) (Fin 0))\<rparr>
           \<lparr>shape = (r, c), data = D\<rparr>
         = Inr \<lparr>shape = (r, Suc c), data = map (\<lambda>x. Fin 0 # x) D\<rparr>"
proof -
  have "map (\<lambda>x. take 1 (replicate (Suc c) (Fin 0)) @ broadcast_row c x) D
        = map (\<lambda>x. Fin 0 # x) D"
    using assms(2) by (intro map_cong) (simp_all add: broadcast_row_def)
  with assms(1) show ?thesis
    by (simp add: setitem_cols_from1_def map2_replicate_left)
qed

lemma brown_returns:
  assumes "0 < N" and "0 \<le> N_ens"
  shows "brown T N N_ens g =
           (Inr (\<lparr>shape = (nat N_ens, Suc (nat N)),
                   data = map (\<lambda>x. Fin 0 # cumsum_row x) (increments T N N_ens g)\<rparr>,
                 \<lparr>shape = (nat N_ens, nat N), data = increments T N N_ens g\<rparr>),
            sdrop (nat N_ens * nat N) g)"
proof -
  let ?D = "increments T N N_ens g"
  have scale: "\<not> scale_negative (np_sqrt (float_div_int (Fin T) N))"
    using assms(1) by simp
  have normal: "random_normal (Fin 0) (np_sqrt (float_div_int (Fin T) N)) (N_ens, N) g
                = (Inr \<lparr>shape = (nat N_ens, nat N), data = ?D\<rparr>, sdrop (nat N_ens * nat N) g)"
    using assms scale by (simp add: random_normal_def increments_def)
  have zeros: "np_zeros (N_ens, N + 1)
               = Inr \<lparr>shape = (nat N_ens, Suc (nat N)),
                      data = replicate (nat N_ens) (replicate (Suc (nat N)) (Fin 0))\<rparr>"
    using assms by (simp add: np_zeros_def nat_add_distrib)
  have len: "length (map cumsum_row ?D) = nat N_ens"
    by (simp add: increments_def length_fill_rows)
  have rows: "\<forall>row \<in> set (map cumsum_row ?D). length row = nat N"
    by (auto simp: increments_def length_cumsum_row fill_rows_row_length)
  have setitem: "setitem_cols_from1
                   \<lparr>shape = (nat N_ens, Suc (nat N)),
                     data = replicate (nat N_ens) (replicate (Suc (nat N)) (Fin 0))\<rparr>
                   (np_cumsum_axis1 \<lparr>shape = (nat N_ens, nat N), data = ?D\<rparr>)
                 = Inr \<lparr>shape = (nat N_ens, Suc (nat N)),
                        data = map (\<lambda>x. Fin 0 # cumsum_row x) ?D\<rparr>"
    using setitem_zeros_same_shape [OF len rows]
    by (simp add: np_cumsum_axis1_def comp_def)
  from assms(1) have div: "py_truediv (Fin T) N = Inr (float_div_int (Fin T) N)"
    by (simp add: py_truediv_def)
  show ?thesis
    unfolding brown_def brown_with_def
    by (simp only: div normal zeros setitem sum.case prod.case Let_def)
qed

lemma brown_zero_steps: "brown T 0 N_ens g = (Inl ZeroDivisionError, g)"
  by (simp add: brown_def brown_with_def py_truediv_def)

lemma normal_negative_size:
  "N < 0 \<or> N_ens < 0 \<Longrightarrow> random_normal loc scale (N_ens, N) g = (Inl ValueError, g)"
  by (auto simp: random_normal_def)

lemma brown_negative_size:
  assumes "N \<noteq> 0" and "N < 0 \<or> N_ens < 0"
  shows "brown T N N_ens g = (Inl ValueError, g)"
  using assms(1) normal_negative_size [OF assms(2)]
  by (simp add: brown_def brown_with_def py_truediv_def)

lemma normal_negative_zero:
  "random_normal loc NegZero (N_ens, N) g = (Inl ValueError, g)"
  by (simp add: random_normal_def)

lemma brown_negative_zero:
  assumes "N \<noteq> 0"
  shows "brown_with random_normal NegZero N N_ens g = (Inl ValueError, g)"
proof (cases "N < 0")
  case True
  then have "random_normal (Fin 0) (Fin 0) (N_ens, N) g = (Inl ValueError, g)"
    by (simp add: normal_negative_size)
  with True show ?thesis
    by (simp add: brown_with_def py_truediv_def)
next
  case False
  with assms show ?thesis
    by (simp add: brown_with_def py_truediv_def normal_negative_zero)
qed

subsection \<open>The increments of a call\<close>

lemma increments_length: "length (increments T N N_ens g) = nat N_ens"
  by (simp add: increments_def length_fill_rows)

lemma increments_row_length:
  "k < nat N_ens \<Longrightarrow> length (increments T N N_ens g ! k) = nat N"
  by (simp add: increments_def fill_rows_nth)

lemma scaled_draw: "fadd (Fin 0) (fmul (Fin s) (Fin z)) = Fin (s * z)"
  by auto

lemma increments_entry:
  assumes "0 \<le> T" and "0 < N" and "k < nat N_ens" and "j < nat N"
  shows "increments T N N_ens g ! k ! j
         = Fin (sqrt (T / real_of_int N) * (g !! (k * nat N + j)))"
proof -
  from assms(1,2) have "np_sqrt (float_div_int (Fin T) N) = Fin (sqrt (T / real_of_int N))"
    by (simp add: not_less)
  with assms(3,4) show ?thesis
    by (simp add: increments_def fill_rows_entry scaled_draw)
qed

lemma fadd_no_nan: "x \<noteq> NaN \<Longrightarrow> y \<noteq> NaN \<Longrightarrow> fadd x y \<noteq> NaN"
  by (cases x; cases y) simp_all

lemma cumsum_from_no_nan:
  "acc \<noteq> NaN \<Longrightarrow> NaN \<notin> set xs \<Longrightarrow> NaN \<notin> set (cumsum_from acc xs)"
proof (induction xs arbitrary: acc)
  case Nil
  then show ?case by simp
next
  case (Cons x xs)
  from Cons.prems have "x \<noteq> NaN" and "NaN \<notin> set xs" by auto
  with Cons.prems(1) have "fadd acc x \<noteq> NaN" by (simp add: fadd_no_nan)
  from Cons.IH [OF this \<open>NaN \<notin> set xs\<close>] this show ?case by auto
qed

lemma cumsum_row_no_nan: "NaN \<notin> set xs \<Longrightarrow> NaN \<notin> set (cumsum_row xs)"
proof (cases xs)
  case Nil
  then show ?thesis by simp
next
  case (Cons x ys)
  assume "NaN \<notin> set xs"
  with Cons have "x \<noteq> NaN" and "NaN \<notin> set ys" by auto
  from cumsum_from_no_nan [OF this] Cons \<open>x \<noteq> NaN\<close> show ?thesis by auto
qed

lemma feq_refl: "x \<noteq> NaN \<Longrightarrow> feq x x"
  by (cases x) simp_all

lemma feq_fadd_zero_left: "x \<noteq> NaN \<Longrightarrow> feq x (fadd (Fin 0) x)"
  by (cases x) simp_all

lemma increments_row_no_nan:
  assumes "0 \<le> T" and "0 < N" and "k < nat N_ens"
  shows "NaN \<notin> set (increments T N N_ens g ! k)"
proof
  assume "NaN \<in> set (increments T N N_ens g ! k)"
  then obtain j where "j < length (increments T N N_ens g ! k)"
    and "increments T N N_ens g ! k ! j = NaN"
    by (auto simp: in_set_conv_nth)
  with assms show False
    by (simp add: increments_row_length increments_entry)
qed

subsection \<open>Shapes\<close>

text \<open>
  Claim C2. For every valid input (\<open>T > 0\<close>, \<open>N > 0\<close>, \<open>N_ens > 0\<close>) the path generator
  returns a pair \<open>(W, dW)\<close> where \<open>W\<close> has shape \<open>(N_ens, N + 1)\<close> and \<open>dW\<close> has shape
  \<open>(N_ens, N)\<close>; the rows of both arrays agree with their shapes.
\<close>
theorem brown_shape:
  assumes "0 < T" and "0 < N" and "0 < N_ens"
  shows "\<exists>W dW g'. brown T N N_ens g = (Inr (W, dW), g')
           \<and> shape W = (nat N_ens, nat N + 1) \<and> shape dW = (nat N_ens, nat N)
           \<and> wf_ndarray W \<and> wf_ndarray dW"
proof -
  have "list_all (\<lambda>r. length r = nat N) (increments T N N_ens g)"
    by (simp add: list_all_iff increments_def fill_rows_row_length)
  moreover have "list_all (\<lambda>r. length r = Suc (nat N))
                   (map (\<lambda>x. Fin 0 # cumsum_row x) (increments T N N_ens g))"
    by (simp add: list_all_iff increments_def fill_rows_row_length length_cumsum_row)
  ultimately show ?thesis
    using assms by (simp add: brown_returns wf_ndarray_def increments_length)
qed

theorem brown_shape_witness:
  "(0::real) < 1 \<and> (0::int) < 2 \<and> (0::int) < 3 \<and>
   (\<exists>W dW g'. brown 1 2 3 (sconst 0) = (Inr (W, dW), g')
      \<and> shape W = (nat 3, nat 2 + 1) \<and> shape dW = (nat 3, nat 2)
      \<and> wf_ndarray W \<and> wf_ndarray dW)"
  using brown_shape [of 1 2 3 "sconst 0"] by simp

subsection \<open>Initial condition\<close>

text \<open>
  Claim C3. For every valid input and every ensemble row \<open>k\<close>, the first entry of the
  returned path is exactly zero: \<open>W[k, 0] == 0\<close>.
\<close>
theorem brown_starts_at_zero:
  assumes "0 < T" and "0 < N" and "0 < N_ens"
  shows "\<exists>W dW g'. brown T N N_ens g = (Inr (W, dW), g')
           \<and> (\<forall>k < nat N_ens. entry W k 0 = Fin 0 \<and> feq (entry W k 0) (Fin 0))"
  using assms by (simp add: brown_returns entry_def increments_length)


theorem brown_starts_at_zero_witness:
  "(0::real) < 1 \<and> (0::int) < 2 \<and> (0::int) < 3 \<and>
   (\<exists>W dW g'. brown 1 2 3 (sconst 0) = (Inr (W, dW), g')
      \<and> (\<forall>k < nat 3. entry W k 0 = Fin 0 \<and> feq (entry W k 0) (Fin 0)))"
  using brown_starts_at_zero [of 1 2 3 "sconst 0"] by simp

subsection \<open>Cumulative sum\<close>

lemma path_step:
  assumes nn: "NaN \<notin> set xs" and j: "1 \<le> j" "j \<le> length xs"
  shows "feq ((Fin 0 # cumsum_row xs) ! j)
             (fadd ((Fin 0 # cumsum_row xs) ! (j - 1)) (xs ! (j - 1)))"
proof -
  from j obtain i where i: "j = Suc i" and len: "i < length xs"
    by (cases j) auto
  have c: "cumsum_row xs ! i \<noteq> NaN"
    using cumsum_row_no_nan [OF nn] len
    by (metis length_cumsum_row nth_mem)
  show ?thesis
  proof (cases i)
    case 0
    with len have "xs \<noteq> []" by auto
    from len 0 nn have "xs ! 0 \<noteq> NaN" by (metis nth_mem)
    with 0 i \<open>xs \<noteq> []\<close> show ?thesis
      by (simp add: cumsum_row_0 feq_fadd_zero_left)
  next
    case (Suc i')
    with len have "cumsum_row xs ! Suc i' = fadd (cumsum_row xs ! i') (xs ! Suc i')"
      by (simp add: cumsum_row_step)
    with c Suc i show ?thesis by (simp add: feq_refl)
  qed
qed

text \<open>
  Claim C1. For every valid input, every row \<open>k\<close> and every step \<open>j\<close> in \<open>[1, N]\<close>, the
  returned pair satisfies \<open>W[k, j] == W[k, j-1] + dW[k, j-1]\<close>, with the addition and the
  comparison those of the doubles.
\<close>
theorem brown_cumulative_sum:
  assumes "0 < T" and "0 < N" and "0 < N_ens"
  shows "\<exists>W dW g'. brown T N N_ens g = (Inr (W, dW), g')
           \<and> (\<forall>k < nat N_ens. \<forall>j. 1 \<le> j \<and> j \<le> nat N \<longrightarrow>
                 feq (entry W k j) (fadd (entry W k (j - 1)) (entry dW k (j - 1))))"
proof -
  let ?D = "increments T N N_ens g"
  have "feq ((Fin 0 # cumsum_row (?D ! k)) ! j)
            (fadd ((Fin 0 # cumsum_row (?D ! k)) ! (j - 1)) (?D ! k ! (j - 1)))"
    if "k < nat N_ens" and "1 \<le> j" and "j \<le> nat N" for k j
  proof (rule path_step)
    show "NaN \<notin> set (?D ! k)"
      using assms that by (simp add: increments_row_no_nan)
    show "1 \<le> j" by fact
    show "j \<le> length (?D ! k)"
      using that by (simp add: increments_row_length)
  qed
  with assms show ?thesis
    by (simp add: brown_returns entry_def increments_length)
qed

theorem brown_cumulative_sum_witness:
  "(0::real) < 1 \<and> (0::int) < 2 \<and> (0::int) < 3 \<and>
   (\<exists>W dW g'. brown 1 2 3 (sconst 0) = (Inr (W, dW), g')
      \<and> (\<forall>k < nat 3. \<forall>j. 1 \<le> j \<and> j \<le> nat 2 \<longrightarrow>
            feq (entry W k j) (fadd (entry W k (j - 1)) (entry dW k (j - 1)))))"
  using brown_cumulative_sum [of 1 2 3 "sconst 0"] by simp

subsection \<open>Empty ensemble and default ensemble size\<close>



text \<open>
  Claim C8. A call that omits \<open>N_ens\<close> behaves as the call with \<open>N_ens = 1\<close>: for valid
  \<open>T\<close> and \<open>N\<close> it returns \<open>W\<close> of shape \<open>(1, N + 1)\<close> and \<open>dW\<close> of shape \<open>(1, N)\<close>.
\<close>
theorem brown_default_ensemble:
  assumes "0 < T" and "0 < N"
  shows "brown_default T N g = brown T N 1 g
         \<and> (\<exists>W dW g'. brown_default T N g = (Inr (W, dW), g')
               \<and> shape W = (1, nat N + 1) \<and> shape dW = (1, nat N)
               \<and> wf_ndarray W \<and> wf_ndarray dW)"
proof -
  have "list_all (\<lambda>r. length r = nat N) (increments T N 1 g)"
    by (simp add: list_all_iff increments_def fill_rows_row_length)
  moreover have "list_all (\<lambda>r. length r = Suc (nat N))
                   (map (\<lambda>x. Fin 0 # cumsum_row x) (increments T N 1 g))"
    by (simp add: list_all_iff increments_def fill_rows_row_length length_cumsum_row)
  ultimately show ?thesis
    using assms by (simp add: brown_default_def brown_returns wf_ndarray_def increments_length)
qed

theorem brown_default_ensemble_witness:
  "(0::real) < 1 \<and> (0::int) < 4 \<and>
   brown_default 1 4 (sconst 0) = brown 1 4 1 (sconst 0)
   \<and> (\<exists>W dW g'. brown_default 1 4 (sconst 0) = (Inr (W, dW), g')
         \<and> shape W = (1, nat 4 + 1) \<and> shape dW = (1, nat 4)
         \<and> wf_ndarray W \<and> wf_ndarray dW)"
proof -
  have h: "(0::real) < 1" "(0::int) < 4" by simp_all
  from h brown_default_ensemble [OF h, of "sconst 0"] show ?thesis by blast
qed

subsection \<open>Zero horizon\<close>

lemma fill_rows_const:
  "fill_rows r c (\<lambda>z. v) g = replicate r (replicate c v)"
  by (induction r arbitrary: g) (simp_all add: map_replicate_const)

lemma cumsum_from_zeros:
  "cumsum_from (Fin 0) (replicate n (Fin 0)) = replicate n (Fin 0)"
  by (induction n) simp_all

lemma cumsum_row_zeros: "cumsum_row (replicate n (Fin 0)) = replicate n (Fin 0)"
  by (cases n) (simp_all add: cumsum_from_zeros)

lemma increments_zero_horizon:
  assumes "0 < N"
  shows "increments 0 N N_ens g = replicate (nat N_ens) (replicate (nat N) (Fin 0))"
proof -
  from assms have "(\<lambda>z. fadd (Fin 0) (fmul (np_sqrt (float_div_int (Fin 0) N)) (Fin z)))
                   = (\<lambda>z. Fin 0)"
    by (auto simp: fun_eq_iff)
  then show ?thesis
    by (simp only: increments_def fill_rows_const)
qed

text \<open>
  Claim C9 says that for \<open>T = 0\<close> and any positive \<open>N\<close> and \<open>N_ens\<close> the path generator
  returns without error, all entries being zero. \<^verbatim>\<open>-0.0\<close> is a zero as well
  (\<^verbatim>\<open>-0.0 == 0\<close>), and there the step size and its root are \<^verbatim>\<open>-0.0\<close>, which the sampler
  rejects as a negative scale.
\<close>

theorem brown_negative_zero_horizon_fails:
  "feq NegZero (Fin 0)
   \<and> brown_with random_normal NegZero 10 1 (sconst 0) = (Inl ValueError, sconst 0)"
  by (simp add: brown_negative_zero)

text \<open>
  Claim C9, as the code has it. For \<open>T\<close> the positive zero (\<^verbatim>\<open>0.0\<close>, or the integer \<open>0\<close>) and
  any positive \<open>N\<close> and \<open>N_ens\<close> the path generator returns without error, \<open>dW\<close> has shape
  \<open>(N_ens, N)\<close>, \<open>W\<close> has shape \<open>(N_ens, N + 1)\<close>, and every entry of both is exactly zero:
  the step size is 0, so the draws have standard deviation 0.
\<close>
theorem brown_zero_horizon:
  assumes "0 < N" and "0 < N_ens"
  shows "\<exists>W dW g'. brown 0 N N_ens g = (Inr (W, dW), g')
           \<and> shape dW = (nat N_ens, nat N)
           \<and> data dW = replicate (nat N_ens) (replicate (nat N) (Fin 0))
           \<and> shape W = (nat N_ens, nat N + 1)
           \<and> data W = replicate (nat N_ens) (replicate (nat N + 1) (Fin 0))"
  using assms
  by (simp add: brown_returns increments_zero_horizon cumsum_row_zeros)

theorem brown_zero_horizon_witness:
  "(0::int) < 10 \<and> (0::int) < 1 \<and>
   (\<exists>W dW g'. brown 0 10 1 (sconst 1) = (Inr (W, dW), g')
      \<and> shape dW = (nat 1, nat 10)
      \<and> data dW = replicate (nat 1) (replicate (nat 10) (Fin 0))
      \<and> shape W = (nat 1, nat 10 + 1)
      \<and> data W = replicate (nat 1) (replicate (nat 10 + 1) (Fin 0)))"
proof -
  have h: "(0::int) < 10" "(0::int) < 1" by simp_all
  from h brown_zero_horizon [OF h, of "sconst 1"] show ?thesis by blast
qed

subsection \<open>Scale of the increments\<close>

text \<open>
  Claim C6. For every valid input the path generator computes \<open>dt = T / N\<close> and asks the
  sampler for an \<open>(N_ens, N)\<close> array with mean 0 and standard deviation \<open>sqrt dt\<close>, which it
  returns unchanged as \<open>dW\<close>: each increment is the next standard normal variate of the
  random source scaled by \<open>sqrt (T / N)\<close>.
\<close>
theorem brown_increment_scale:
  assumes "0 < T" and "0 < N" and "0 < N_ens"
  shows "\<exists>W dW g'. brown T N N_ens g = (Inr (W, dW), g')
           \<and> random_normal (Fin 0) (Fin (sqrt (T / real_of_int N))) (N_ens, N) g = (Inr dW, g')
           \<and> (\<forall>k < nat N_ens. \<forall>j < nat N.
                 entry dW k j = Fin (0 + sqrt (T / real_of_int N) * (g !! (k * nat N + j))))"
proof -
  from assms have nn: "\<not> T / real_of_int N < 0" by (simp add: not_less)
  with assms have s: "np_sqrt (float_div_int (Fin T) N) = Fin (sqrt (T / real_of_int N))"
    by simp
  have "random_normal (Fin 0) (Fin (sqrt (T / real_of_int N))) (N_ens, N) g
        = (Inr \<lparr>shape = (nat N_ens, nat N), data = increments T N N_ens g\<rparr>,
           sdrop (nat N_ens * nat N) g)"
    using assms nn by (simp add: random_normal_def increments_def s)
  with assms show ?thesis
    by (simp add: brown_returns entry_def increments_entry)
qed

theorem brown_increment_scale_witness:
  "(0::real) < 1 \<and> (0::int) < 4 \<and> (0::int) < 2 \<and>
   (\<exists>W dW g'. brown 1 4 2 (sconst 1) = (Inr (W, dW), g')
      \<and> random_normal (Fin 0) (Fin (sqrt (1 / real_of_int 4))) (2, 4) (sconst 1) = (Inr dW, g')
      \<and> (\<forall>k < nat 2. \<forall>j < nat 4.
            entry dW k j = Fin (0 + sqrt (1 / real_of_int 4) * (sconst 1 !! (k * nat 4 + j)))))"
proof -
  have h: "(0::real) < 1" "(0::int) < 4" "(0::int) < 2" by simp_all
  from h brown_increment_scale [OF h, of "sconst 1"] show ?thesis by blast
qed

subsection \<open>Determinism\<close>

lemma fill_rows_prefix:
  "stake (r * c) g1 = stake (r * c) g2 \<Longrightarrow> fill_rows r c f g1 = fill_rows r c f g2"
proof (induction r arbitrary: g1 g2)
  case 0
  then show ?case by simp
next
  case (Suc r)
  have split: "stake (Suc r * c) g = stake c g @ stake (r * c) (sdrop c g)" for g :: rng
    by simp
  from Suc.prems have "stake c g1 @ stake (r * c) (sdrop c g1)
                       = stake c g2 @ stake (r * c) (sdrop c g2)"
    by (simp only: split)
  then have hd: "stake c g1 = stake c g2"
    and tl: "stake (r * c) (sdrop c g1) = stake (r * c) (sdrop c g2)"
    by (subst (asm) append_eq_append_conv; simp)+
  from hd Suc.IH [OF tl] show ?case by simp
qed

text \<open>
  Claim C7. Two calls with identical arguments, each made on a random source reset to the
  same seed, produce identical \<open>W\<close> and \<open>dW\<close> (or the same exception). The result depends
  on the state of the source only through the \<open>N_ens * N\<close> variates it hands out next, so
  two states that agree on those give the same result; equal states are the special case.
\<close>
theorem brown_deterministic:
  assumes "stake (nat N_ens * nat N) g1 = stake (nat N_ens * nat N) g2"
  shows "fst (brown T N N_ens g1) = fst (brown T N N_ens g2)"
proof -
  consider "N = 0" | "N \<noteq> 0" "N < 0 \<or> N_ens < 0" | "0 < N" "0 \<le> N_ens"
    by linarith
  then show ?thesis
  proof cases
    case 1
    then show ?thesis by (simp add: brown_zero_steps)
  next
    case 2
    then show ?thesis by (simp add: brown_negative_size)
  next
    case 3
    from assms have "increments T N N_ens g1 = increments T N N_ens g2"
      unfolding increments_def by (rule fill_rows_prefix)
    with 3 show ?thesis by (simp add: brown_returns)
  qed
qed


theorem brown_deterministic_witness:
  "stake (nat 1 * nat 2) ([1, 2] @- sconst (0::real))
     = stake (nat 1 * nat 2) ([1, 2] @- sconst 5)
   \<and> fst (brown 1 2 1 ([1, 2] @- sconst 0)) = fst (brown 1 2 1 ([1, 2] @- sconst 5))"
proof -
  have h: "stake (nat 1 * nat 2) ([1, 2] @- sconst (0::real))
           = stake (nat 1 * nat 2) ([1, 2] @- sconst 5)"
    by (simp add: numeral_2_eq_2)
  from h brown_deterministic [OF h] show ?thesis by blast
qed


subsection \<open>Invalid arguments\<close>




subsection \<open>A worked scenario\<close>




end
